theory Spec2Isabelle
  imports Main "HOL-Library.Monad_Syntax"
begin

section \<open>The node graph of search\_tree.cpp\<close>

text \<open>
  The three classes of the source share one node shape here. \<open>TSearchTree::Node\<close> holds
  \<open>value_\<close> and \<open>cnt_\<close> (here \<open>val\<close> and \<open>cnt\<close>); \<open>TAvlTree::AvlNode\<close> adds \<open>height_\<close>
  (here \<open>height\<close>); \<open>TAvlTreeWithSize::AvlNodeWithSize\<close> adds the subtree size \<open>size_\<close>
  (here \<open>nsize\<close>). The tree object's fields \<open>root_\<close> and \<open>size_\<close> are \<open>root\<close> and \<open>tsize\<close>.
  A class that does not have a field never reads or writes it, so the field keeps its
  initial value 1 there.

  The counters are \<open>size_t\<close> in the source. They are natural numbers here: each of them grows
  by at most one per call, so a wrap-around needs \<open>2^64\<close> calls. \<open>HeightDiff\<close> subtracts two
  \<open>size_t\<close> heights and narrows the result to \<open>int\<close>, which is the integer difference as
  long as both heights are below \<open>2^31\<close>.

  The \<open>parent_\<close> back-links are weak pointers, read only by \<open>IsLeftSon\<close>, \<open>IsRightSon\<close>,
  the iterator's increment and decrement and the debug output. They own nothing and no
  function modelled below reads them, so the node graph is the tree of owning
  \<open>left_\<close>/\<open>right_\<close> links. A null \<open>shared_ptr\<close> is \<open>Null\<close>.

  The element type \<open>T\<close> is compared with \<open>==\<close>, \<open><\<close> and \<open>>\<close> only; it is any linear order
  here, and \<open>int\<close> where the source's \<open>int64_t\<close> scenarios are evaluated.
\<close>

record 'a node =
  val :: 'a
  cnt :: nat
  height :: nat
  nsize :: nat

datatype 'a ptr = Null | Node "'a ptr" "'a node" "'a ptr"

text \<open>The class whose virtual functions are in force.\<close>

datatype variant = TSearchTree | TAvlTree | TAvlTreeWithSize

text \<open>The tree object: \<open>root_\<close> and the running counter \<open>size_\<close>.\<close>

record 'a tree =
  root :: "'a ptr"
  tsize :: nat

definition empty_tree :: "'a tree" where
  "empty_tree = \<lparr>root = Null, tsize = 0\<rparr>"

text \<open>
  Dereferencing a null pointer is undefined behaviour in the source. A function that can
  do so returns an option, and \<open>None\<close> is that outcome.
\<close>

subsection \<open>Node construction and the recomputation of height and size\<close>

definition CreateNode :: "'a \<Rightarrow> 'a ptr" where
  "CreateNode v = Node Null \<lparr>val = v, cnt = 1, height = 1, nsize = 1\<rparr> Null"

fun NodeHeight :: "'a ptr \<Rightarrow> nat" where
  "NodeHeight Null = 0"
| "NodeHeight (Node l n r) = height n"

fun NodeSize :: "'a ptr \<Rightarrow> nat" where
  "NodeSize Null = 0"
| "NodeSize (Node l n r) = nsize n"

fun HeightDiff :: "'a ptr \<Rightarrow> int" where
  "HeightDiff Null = 0"
| "HeightDiff (Node l n r) = int (NodeHeight l) - int (NodeHeight r)"

fun RenewNodesHeight :: "variant \<Rightarrow> 'a ptr \<Rightarrow> 'a ptr" where
  "RenewNodesHeight k Null = Null"
| "RenewNodesHeight k (Node l n r) =
     (if k = TAvlTreeWithSize
      then Node l (n\<lparr>height := max (NodeHeight r) (NodeHeight l) + 1,
                     nsize := (NodeSize r + NodeSize l) + 1\<rparr>) r
      else Node l (n\<lparr>height := max (NodeHeight r) (NodeHeight l) + 1\<rparr>) r)"

subsection \<open>Rotations and the rebalancing hook\<close>

fun RotateRight :: "variant \<Rightarrow> 'a ptr \<Rightarrow> 'a ptr option" where
  "RotateRight k Null = None"
| "RotateRight k (Node Null n r) = None"
| "RotateRight k (Node (Node sl s T2) n r) =
     (let node = RenewNodesHeight k (Node T2 n r);
          son = RenewNodesHeight k (Node sl s node)
      in Some son)"

fun RotateLeft :: "variant \<Rightarrow> 'a ptr \<Rightarrow> 'a ptr option" where
  "RotateLeft k Null = None"
| "RotateLeft k (Node l n Null) = None"
| "RotateLeft k (Node l n (Node T2 s sr)) =
     (let node = RenewNodesHeight k (Node l n T2);
          son = RenewNodesHeight k (Node node s sr)
      in Some son)"

fun RightRotation :: "variant \<Rightarrow> 'a ptr \<Rightarrow> 'a ptr option" where
  "RightRotation k Null = None"
| "RightRotation k (Node l n r) =
     (if HeightDiff l \<ge> 0 then RotateRight k (Node l n r)
      else do { l' \<leftarrow> RotateLeft k l; RotateRight k (Node l' n r) })"

fun LeftRotation :: "variant \<Rightarrow> 'a ptr \<Rightarrow> 'a ptr option" where
  "LeftRotation k Null = None"
| "LeftRotation k (Node l n r) =
     (if HeightDiff r \<le> 0 then RotateLeft k (Node l n r)
      else do { r' \<leftarrow> RotateRight k r; RotateLeft k (Node l n r') })"

fun BalanceNode :: "variant \<Rightarrow> 'a ptr \<Rightarrow> 'a ptr option" where
  "BalanceNode k Null = Some Null"
| "BalanceNode k (Node l n r) =
     (let node = RenewNodesHeight k (Node l n r);
          node_height = HeightDiff node
      in if node_height < -1 then LeftRotation k node
         else if node_height > 1 then RightRotation k node
         else Some node)"

text \<open>
  \<open>TSearchTree::Balance\<close> returns its argument; the AVL classes override it, so the
  functions above run with \<open>k = TAvlTree\<close> or \<open>k = TAvlTreeWithSize\<close> only.
\<close>

definition Balance :: "variant \<Rightarrow> 'a ptr \<Rightarrow> 'a ptr option" where
  "Balance k node = (if k = TSearchTree then Some node else BalanceNode k node)"

subsection \<open>Insert\<close>

definition InsertIfFound :: "bool \<Rightarrow> 'a node \<Rightarrow> 'a node" where
  "InsertIfFound IsMultiSet cur_node =
     (if IsMultiSet then cur_node\<lparr>cnt := cnt cur_node + 1\<rparr> else cur_node)"

text \<open>
  \<open>InsertRecursive\<close> increments the tree's \<open>size_\<close> where it creates a node; the counter is
  passed in and returned with the new subtree.
\<close>

fun InsertRecursive ::
  "bool \<Rightarrow> variant \<Rightarrow> 'a::linorder \<Rightarrow> 'a ptr \<Rightarrow> nat \<Rightarrow> ('a ptr \<times> nat) option" where
  "InsertRecursive ms k v Null sz = Some (CreateNode v, sz + 1)"
| "InsertRecursive ms k v (Node l n r) sz =
     (if val n = v then
        do { t \<leftarrow> Balance k (Node l (InsertIfFound ms n) r); Some (t, sz) }
      else if val n > v then
        do { (l', sz') \<leftarrow> InsertRecursive ms k v l sz;
             t \<leftarrow> Balance k (Node l' n r);
             Some (t, sz') }
      else
        do { (r', sz') \<leftarrow> InsertRecursive ms k v r sz;
             t \<leftarrow> Balance k (Node l n r');
             Some (t, sz') })"

text \<open>\<open>Insert\<close> stores the new root and then writes \<open>root_->parent_\<close>.\<close>

definition Insert :: "bool \<Rightarrow> variant \<Rightarrow> 'a::linorder \<Rightarrow> 'a tree \<Rightarrow> 'a tree option" where
  "Insert ms k v t =
     do { (r, sz) \<leftarrow> InsertRecursive ms k v (root t) (tsize t);
          if r = Null then None else Some \<lparr>root = r, tsize = sz\<rparr> }"

subsection \<open>Erase\<close>

fun FindMin :: "'a ptr \<Rightarrow> 'a ptr" where
  "FindMin Null = Null"
| "FindMin (Node Null n r) = Node Null n r"
| "FindMin (Node (Node ll ln lr) n r) = FindMin (Node ll ln lr)"

fun FindMax :: "'a ptr \<Rightarrow> 'a ptr" where
  "FindMax Null = Null"
| "FindMax (Node l n Null) = Node l n Null"
| "FindMax (Node l n (Node rl rn rr)) = FindMax (Node rl rn rr)"

text \<open>
  \<open>SwapNodesValue\<close> swaps \<open>value_\<close> and \<open>cnt_\<close> of two nodes in place and leaves their
  other fields alone. It returns the two nodes as they are afterwards.
\<close>

definition SwapNodesValue :: "'a node \<Rightarrow> 'a node \<Rightarrow> 'a node \<times> 'a node" where
  "SwapNodesValue n1 n2 =
     (n1\<lparr>val := val n2, cnt := cnt n2\<rparr>, n2\<lparr>val := val n1, cnt := cnt n1\<rparr>)"

text \<open>
  In \<open>EraseIfFound\<close> the pointer \<open>change_node\<close> aliases the node that \<open>FindMin\<close> reached
  inside \<open>node->right_\<close>. \<open>StoreMin m t\<close> is the subtree \<open>t\<close> after the write through that
  alias: the node \<open>FindMin t\<close> now holds \<open>m\<close>.
\<close>

fun StoreMin :: "'a node \<Rightarrow> 'a ptr \<Rightarrow> 'a ptr" where
  "StoreMin m Null = Null"
| "StoreMin m (Node Null n r) = Node Null m r"
| "StoreMin m (Node (Node ll ln lr) n r) = Node (StoreMin m (Node ll ln lr)) n r"

fun nodes :: "'a ptr \<Rightarrow> nat" where
  "nodes Null = 0"
| "nodes (Node l n r) = nodes l + 1 + nodes r"

text \<open>
  \<open>EraseIfFound\<close> takes a non-null node, given by its parts. Neither function calls
  \<open>Balance\<close>, and neither touches \<open>size_\<close>. The value searched for in the right subtree
  is passed as a reference to \<open>change_node->value_\<close>; it is read here once, after the swap,
  and in a tree in search order no later step writes that field.
\<close>

function EraseRecursive :: "'a::linorder \<Rightarrow> 'a ptr \<Rightarrow> 'a ptr option"
  and EraseIfFound :: "'a ptr \<Rightarrow> 'a node \<Rightarrow> 'a ptr \<Rightarrow> 'a ptr option" where
  "EraseRecursive v Null = Some Null"
| "EraseRecursive v (Node l n r) =
     (if val n = v then EraseIfFound l n r
      else if val n > v then
        do { l' \<leftarrow> EraseRecursive v l; Some (Node l' n r) }
      else
        do { r' \<leftarrow> EraseRecursive v r; Some (Node l n r') })"
| "EraseIfFound l n r =
     (if l = Null \<or> r = Null then Some (if l \<noteq> Null then l else r)
      else case FindMin r of
             Null \<Rightarrow> None
           | Node cl change_node cr \<Rightarrow>
               (let (n', change_node') = SwapNodesValue n change_node;
                    r' = StoreMin change_node' r
                in do { r'' \<leftarrow> EraseRecursive (val change_node') r';
                        Some (Node l n' r'') }))"
  by pat_completeness auto
termination
proof -
  have same: "nodes (StoreMin m t) = nodes t" for m :: "'a node" and t
    by (induction m t rule: StoreMin.induct) simp_all
  show ?thesis
    by (relation "measure (\<lambda>x. case x of Inl (v, t) \<Rightarrow> 2 * nodes t + 1
                                     | Inr (l, n, r) \<Rightarrow> 2 * (nodes l + 1 + nodes r))")
       (auto simp: same)
qed

text \<open>\<open>Erase\<close> stores the new root and then writes \<open>root_->parent_\<close> without a null check.\<close>

definition Erase :: "'a::linorder \<Rightarrow> 'a tree \<Rightarrow> 'a tree option" where
  "Erase v t =
     do { r \<leftarrow> EraseRecursive v (root t);
          if r = Null then None else Some (t\<lparr>root := r\<rparr>) }"

subsection \<open>Queries\<close>

fun FindRecursive :: "'a::linorder \<Rightarrow> 'a ptr \<Rightarrow> 'a ptr" where
  "FindRecursive v Null = Null"
| "FindRecursive v (Node l n r) =
     (if val n = v then Node l n r
      else if val n > v then FindRecursive v l
      else FindRecursive v r)"

definition Exsist :: "'a::linorder \<Rightarrow> 'a tree \<Rightarrow> bool" where
  "Exsist v t = (FindRecursive v (root t) \<noteq> Null)"

definition Size :: "'a tree \<Rightarrow> nat" where
  "Size t = tsize t"

definition Empty :: "'a tree \<Rightarrow> bool" where
  "Empty t = (tsize t = 0)"

text \<open>
  An iterator is the node pointer it holds; \<open>IsValid\<close> tests it against null and
  \<open>operator*\<close> reads \<open>value_\<close> through it.
\<close>

definition IsValid :: "'a ptr \<Rightarrow> bool" where
  "IsValid node_ptr = (node_ptr \<noteq> Null)"

fun deref :: "'a ptr \<Rightarrow> 'a option" where
  "deref Null = None"
| "deref (Node l n r) = Some (val n)"

text \<open>The loops of \<open>Next\<close> and \<open>Prev\<close>, with the candidate and the current node as arguments.\<close>

fun Next_loop :: "'a::linorder \<Rightarrow> 'a ptr \<Rightarrow> 'a ptr \<Rightarrow> 'a ptr" where
  "Next_loop v next Null = next"
| "Next_loop v next (Node l n r) =
     (if val n > v then
        Next_loop v (case next of Null \<Rightarrow> Node l n r
                     | Node nl nn nr \<Rightarrow> if val n < val nn then Node l n r else next) l
      else Next_loop v next r)"

fun Prev_loop :: "'a::linorder \<Rightarrow> 'a ptr \<Rightarrow> 'a ptr \<Rightarrow> 'a ptr" where
  "Prev_loop v prev Null = prev"
| "Prev_loop v prev (Node l n r) =
     (if val n < v then
        Prev_loop v (case prev of Null \<Rightarrow> Node l n r
                     | Node pl pn pr \<Rightarrow> if val n > val pn then Node l n r else prev) r
      else Prev_loop v prev l)"

definition Next :: "'a::linorder \<Rightarrow> 'a tree \<Rightarrow> 'a ptr" where
  "Next v t = Next_loop v Null (root t)"

definition Prev :: "'a::linorder \<Rightarrow> 'a tree \<Rightarrow> 'a ptr" where
  "Prev v t = Prev_loop v Null (root t)"

subsection \<open>Sequences of operations\<close>

datatype 'a operation = InsertOp 'a | EraseOp 'a

fun apply_operation :: "bool \<Rightarrow> variant \<Rightarrow> 'a::linorder operation \<Rightarrow> 'a tree \<Rightarrow> 'a tree option" where
  "apply_operation ms k (InsertOp v) t = Insert ms k v t"
| "apply_operation ms k (EraseOp v) t = Erase v t"

fun run :: "bool \<Rightarrow> variant \<Rightarrow> 'a::linorder operation list \<Rightarrow> 'a tree \<Rightarrow> 'a tree option" where
  "run ms k [] t = Some t"
| "run ms k (x # xs) t = do { t' \<leftarrow> apply_operation ms k x t; run ms k xs t' }"

subsection \<open>What the properties are stated with\<close>

fun inorder :: "'a ptr \<Rightarrow> 'a list" where
  "inorder Null = []"
| "inorder (Node l n r) = inorder l @ val n # inorder r"

fun entries :: "'a ptr \<Rightarrow> ('a \<times> nat) list" where
  "entries Null = []"
| "entries (Node l n r) = entries l @ (val n, cnt n) # entries r"

text \<open>
  The height and the number of nodes of a subtree, recomputed from its shape. The three
  predicates below compare the stored fields with them at every node.
\<close>

fun tree_height :: "'a ptr \<Rightarrow> nat" where
  "tree_height Null = 0"
| "tree_height (Node l n r) = max (tree_height l) (tree_height r) + 1"

fun balanced :: "'a ptr \<Rightarrow> bool" where
  "balanced Null = True"
| "balanced (Node l n r) =
     (balanced l \<and> balanced r \<and> \<bar>int (tree_height l) - int (tree_height r)\<bar> \<le> 1)"

fun heights_correct :: "'a ptr \<Rightarrow> bool" where
  "heights_correct Null = True"
| "heights_correct (Node l n r) =
     (heights_correct l \<and> heights_correct r \<and> height n = tree_height (Node l n r))"

fun sizes_correct :: "'a ptr \<Rightarrow> bool" where
  "sizes_correct Null = True"
| "sizes_correct (Node l n r) =
     (sizes_correct l \<and> sizes_correct r \<and> nsize n = nodes (Node l n r))"

text \<open>The three together; the sizes belong to it in the order-statistics class only.\<close>

definition avl :: "variant \<Rightarrow> 'a ptr \<Rightarrow> bool" where
  "avl k t = (balanced t \<and> heights_correct t \<and> (k = TAvlTreeWithSize \<longrightarrow> sizes_correct t))"

text \<open>The insertions of \<open>main1\<close>, in its order.\<close>

definition main1_ops :: "int operation list" where
  "main1_ops = map InsertOp [10, 2, 6, 8, 3, 6, 1, 9, 3, 15, 13, 11, 12, 18]"

fun bst :: "'a::linorder ptr \<Rightarrow> bool" where
  "bst Null = True"
| "bst (Node l n r) =
     (bst l \<and> bst r \<and> (\<forall>x \<in> set (inorder l). x < val n) \<and> (\<forall>x \<in> set (inorder r). val n < x))"

section \<open>Rotations keep the in-order sequence\<close>

lemma inorder_entries: "inorder t = map fst (entries t)"
  by (induction t) simp_all

lemma entries_RenewNodesHeight [simp]: "entries (RenewNodesHeight k t) = entries t"
  by (cases t) simp_all

lemma RenewNodesHeight_Null [simp]: "RenewNodesHeight k t = Null \<longleftrightarrow> t = Null"
  by (cases t) simp_all

lemma entries_RotateRight: "RotateRight k t = Some t' \<Longrightarrow> entries t' = entries t"
  by (induction k t rule: RotateRight.induct) (auto simp: Let_def)

lemma entries_RotateLeft: "RotateLeft k t = Some t' \<Longrightarrow> entries t' = entries t"
  by (induction k t rule: RotateLeft.induct) (auto simp: Let_def)

lemma entries_RightRotation: "RightRotation k t = Some t' \<Longrightarrow> entries t' = entries t"
  by (cases t) (auto split: if_splits bind_splits dest!: entries_RotateRight entries_RotateLeft)

lemma entries_LeftRotation: "LeftRotation k t = Some t' \<Longrightarrow> entries t' = entries t"
  by (cases t) (auto split: if_splits bind_splits dest!: entries_RotateRight entries_RotateLeft)

lemma entries_BalanceNode: "BalanceNode k t = Some t' \<Longrightarrow> entries t' = entries t"
proof (cases t)
  case Null
  then show "BalanceNode k t = Some t' \<Longrightarrow> entries t' = entries t" by simp
next
  case (Node l n r)
  assume b: "BalanceNode k t = Some t'"
  let ?node = "RenewNodesHeight k t"
  from b Node have "LeftRotation k ?node = Some t' \<or> RightRotation k ?node = Some t' \<or> ?node = t'"
    by (simp add: Let_def del: RenewNodesHeight.simps LeftRotation.simps RightRotation.simps
             split: if_splits)
  then have "entries t' = entries ?node"
    using entries_LeftRotation entries_RightRotation by blast
  then show "entries t' = entries t" by simp
qed

lemma entries_Balance: "Balance k t = Some t' \<Longrightarrow> entries t' = entries t"
  by (auto simp: Balance_def split: if_splits dest: entries_BalanceNode)

lemma inorder_Balance: "Balance k t = Some t' \<Longrightarrow> inorder t' = inorder t"
  by (simp add: inorder_entries entries_Balance)

subsection \<open>The hook never dereferences null\<close>



lemma RenewNodesHeight_height_pos: "t \<noteq> Null \<Longrightarrow> NodeHeight (RenewNodesHeight k t) > 0"
  by (cases t) auto







section \<open>Insert keeps the search-tree order\<close>

lemma bst_sorted: "bst t \<longleftrightarrow> sorted_wrt (<) (inorder t)"
  by (induction t) (auto simp: sorted_wrt_append intro: less_trans)

lemma bst_Balance: "Balance k t = Some t' \<Longrightarrow> bst t' = bst t"
  by (simp add: bst_sorted inorder_Balance)

lemma InsertRecursive_Node:
  "InsertRecursive ms k v (Node l n r) sz = Some (t', sz') \<longleftrightarrow>
     (if val n = v then Balance k (Node l (InsertIfFound ms n) r) = Some t' \<and> sz' = sz
      else if val n > v then
        (\<exists>l'. InsertRecursive ms k v l sz = Some (l', sz') \<and> Balance k (Node l' n r) = Some t')
      else
        (\<exists>r'. InsertRecursive ms k v r sz = Some (r', sz') \<and> Balance k (Node l n r') = Some t'))"
  by (auto split: bind_splits)


lemma set_inorder_InsertRecursive:
  "InsertRecursive ms k v t sz = Some (t', sz') \<Longrightarrow> set (inorder t') = insert v (set (inorder t))"
proof (induction t arbitrary: t' sz')
  case Null
  then show ?case by (auto simp: CreateNode_def)
next
  case (Node l n r)
  note step = Node.prems [unfolded InsertRecursive_Node]
  show ?case
  proof (cases "val n = v")
    case True
    with step have "Balance k (Node l (InsertIfFound ms n) r) = Some t'" by simp
    from inorder_Balance [OF this] True show ?thesis
      by (auto simp: InsertIfFound_def)
  next
    case False
    show ?thesis
    proof (cases "val n > v")
      case True
      with False step obtain l' where
        l': "InsertRecursive ms k v l sz = Some (l', sz')" and b: "Balance k (Node l' n r) = Some t'"
        by auto
      show ?thesis using Node.IH(1) [OF l'] inorder_Balance [OF b] by auto
    next
      case nlt: False
      with False step obtain r' where
        r': "InsertRecursive ms k v r sz = Some (r', sz')" and b: "Balance k (Node l n r') = Some t'"
        by auto
      show ?thesis using Node.IH(2) [OF r'] inorder_Balance [OF b] by auto
    qed
  qed
qed

lemma bst_InsertRecursive:
  "InsertRecursive ms k v t sz = Some (t', sz') \<Longrightarrow> bst t \<Longrightarrow> bst t'"
proof (induction t arbitrary: t' sz')
  case Null
  then show ?case by (auto simp: CreateNode_def)
next
  case (Node l n r)
  note step = Node.prems(1) [unfolded InsertRecursive_Node]
  show ?case
  proof (cases "val n = v")
    case True
    with step have b: "Balance k (Node l (InsertIfFound ms n) r) = Some t'" by simp
    have "bst (Node l (InsertIfFound ms n) r)"
      using Node.prems(2) by (simp add: InsertIfFound_def)
    then show ?thesis using bst_Balance [OF b] by simp
  next
    case False
    show ?thesis
    proof (cases "val n > v")
      case True
      with False step obtain l' where
        l': "InsertRecursive ms k v l sz = Some (l', sz')" and b: "Balance k (Node l' n r) = Some t'"
        by auto
      have "bst l'" using Node.IH(1) [OF l'] Node.prems(2) by simp
      moreover have "set (inorder l') = insert v (set (inorder l))"
        using set_inorder_InsertRecursive [OF l'] .
      ultimately have "bst (Node l' n r)" using Node.prems(2) True by auto
      then show ?thesis using bst_Balance [OF b] by simp
    next
      case nlt: False
      with False step obtain r' where
        r': "InsertRecursive ms k v r sz = Some (r', sz')" and b: "Balance k (Node l n r') = Some t'"
        by auto
      have "bst r'" using Node.IH(2) [OF r'] Node.prems(2) by simp
      moreover have "set (inorder r') = insert v (set (inorder r))"
        using set_inorder_InsertRecursive [OF r'] .
      ultimately have "bst (Node l n r')" using Node.prems(2) nlt False by auto
      then show ?thesis using bst_Balance [OF b] by simp
    qed
  qed
qed

lemma Insert_Some:
  "Insert ms k v t = Some t' \<longleftrightarrow>
     InsertRecursive ms k v (root t) (tsize t) = Some (root t', tsize t') \<and> root t' \<noteq> Null"
  by (cases t') (auto simp: Insert_def split: bind_splits)


lemma bst_Insert: "Insert ms k v t = Some t' \<Longrightarrow> bst (root t) \<Longrightarrow> bst (root t')"
  unfolding Insert_Some using bst_InsertRecursive by blast

lemma set_inorder_Insert:
  "Insert ms k v t = Some t' \<Longrightarrow> set (inorder (root t')) = insert v (set (inorder (root t)))"
  unfolding Insert_Some using set_inorder_InsertRecursive by blast

section \<open>Erase\<close>

lemma inorder_Nil [simp]: "inorder t = [] \<longleftrightarrow> t = Null"
  by (cases t) simp_all

lemma entries_Nil [simp]: "entries t = [] \<longleftrightarrow> t = Null"
  by (cases t) simp_all

lemma FindMin_Null [simp]: "FindMin t = Null \<longleftrightarrow> t = Null"
  by (induction t rule: FindMin.induct) simp_all

lemma StoreMin_Null [simp]: "StoreMin m t = Null \<longleftrightarrow> t = Null"
  by (induction m t rule: StoreMin.induct) simp_all

lemma FindMin_Node: "FindMin (Node l n r) = (if l = Null then Node l n r else FindMin l)"
  by (cases l) simp_all

lemma StoreMin_Node:
  "StoreMin m (Node l n r) = (if l = Null then Node l m r else Node (StoreMin m l) n r)"
  by (cases l) simp_all

text \<open>The leftmost node holds the least value of a search tree.\<close>

lemma FindMin_least:
  "bst t \<Longrightarrow> FindMin t = Node cl c cr \<Longrightarrow>
     val c \<in> set (inorder t) \<and> (\<forall>x \<in> set (inorder t). val c \<le> x)"
proof (induction t)
  case Null
  then show ?case by simp
next
  case (Node l n r)
  show ?case
  proof (cases "l = Null")
    case True
    with Node.prems show ?thesis by auto
  next
    case False
    with Node.prems have "FindMin l = Node cl c cr" "bst l" by (simp_all add: FindMin_Node)
    with Node.IH(1) have ih: "val c \<in> set (inorder l)" "\<forall>x \<in> set (inorder l). val c \<le> x"
      by simp_all
    from ih(1) Node.prems(1) have "val c < val n" by simp
    with Node.prems(1) ih show ?thesis by fastforce
  qed
qed

text \<open>
  Writing a node below every value of a search tree into its leftmost position keeps the
  order; the in-order sequence loses its head and gains the new value in front.
\<close>

lemma inorder_StoreMin:
  "t \<noteq> Null \<Longrightarrow> inorder (StoreMin m t) = val m # tl (inorder t)"
proof (induction t)
  case Null
  then show ?case by simp
next
  case (Node l n r)
  then show ?case by (cases "l = Null") (auto simp: StoreMin_Node)
qed

lemma entries_StoreMin:
  "t \<noteq> Null \<Longrightarrow> entries (StoreMin m t) = (val m, cnt m) # tl (entries t)"
proof (induction t)
  case Null
  then show ?case by simp
next
  case (Node l n r)
  then show ?case by (cases "l = Null") (auto simp: StoreMin_Node)
qed

lemma entries_FindMin:
  "FindMin t = Node cl c cr \<Longrightarrow> hd (entries t) = (val c, cnt c)"
proof (induction t)
  case Null
  then show ?case by simp
next
  case (Node l n r)
  then show ?case by (cases "l = Null") (auto simp: FindMin_Node)
qed


lemma set_inorder_entries: "set (inorder t) = fst ` set (entries t)"
  by (simp add: inorder_entries)

lemma filter_entries_absent:
  "v \<notin> set (inorder t) \<Longrightarrow> filter (\<lambda>e. fst e \<noteq> v) (entries t) = entries t"
  by (auto simp: set_inorder_entries filter_id_conv)

lemma bst_entries: "bst t \<longleftrightarrow> sorted_wrt (\<lambda>a b. fst a < fst b) (entries t)"
  by (simp add: bst_sorted inorder_entries sorted_wrt_map)

lemma EraseIfFound_two_children:
  "l \<noteq> Null \<Longrightarrow> FindMin r = Node cl c cr \<Longrightarrow>
     EraseIfFound l n r =
       EraseRecursive (val n) (StoreMin (c\<lparr>val := val n, cnt := cnt n\<rparr>) r) \<bind>
         (\<lambda>r''. Some (Node l (n\<lparr>val := val c, cnt := cnt c\<rparr>) r''))"
  by (auto simp: SwapNodesValue_def)

lemma EraseIfFound_one_child:
  "l = Null \<or> r = Null \<Longrightarrow> EraseIfFound l n r = Some (if l \<noteq> Null then l else r)"
  by simp

lemma EraseRecursive_Node:
  "EraseRecursive v (Node l n r) = Some t' \<longleftrightarrow>
     (if val n = v then EraseIfFound l n r = Some t'
      else if val n > v then (\<exists>l'. EraseRecursive v l = Some l' \<and> t' = Node l' n r)
      else (\<exists>r'. EraseRecursive v r = Some r' \<and> t' = Node l n r'))"
  by (auto split: bind_splits simp del: EraseIfFound.simps)

declare EraseIfFound.simps [simp del]

lemma entries_Erase:
  fixes t l r :: "'a::linorder ptr"
  shows "bst t \<Longrightarrow>
     \<exists>t'. EraseRecursive v t = Some t' \<and> entries t' = filter (\<lambda>e. fst e \<noteq> v) (entries t)"
  and "bst (Node l n r) \<Longrightarrow>
     \<exists>t'. EraseIfFound l n r = Some t' \<and> entries t' = entries l @ entries r"
proof (induction v t and l n r rule: EraseRecursive_EraseIfFound.induct)
  case (1 v)
  show ?case by simp
next
  case (2 v l n r)
  have l_below: "\<forall>x \<in> set (inorder l). x < val n" and r_above: "\<forall>x \<in> set (inorder r). val n < x"
    and "bst l" "bst r"
    using "2.prems" by simp_all
  show ?case
  proof (cases "val n = v")
    case True
    then obtain t' where t': "EraseIfFound l n r = Some t'" "entries t' = entries l @ entries r"
      using "2.IH"(1) "2.prems" by blast
    have "v \<notin> set (inorder l)" "v \<notin> set (inorder r)"
      using True l_below r_above by auto
    then have "filter (\<lambda>e. fst e \<noteq> v) (entries (Node l n r)) = entries l @ entries r"
      using True by (simp add: filter_entries_absent)
    with t' True show ?thesis by (simp add: EraseRecursive_Node del: EraseRecursive.simps)
  next
    case False
    show ?thesis
    proof (cases "v < val n")
      case True
      then obtain l' where l': "EraseRecursive v l = Some l'"
          "entries l' = filter (\<lambda>e. fst e \<noteq> v) (entries l)"
        using "2.IH"(2) False \<open>bst l\<close> by blast
      have "v \<notin> set (inorder r)" using True r_above by auto
      then have "filter (\<lambda>e. fst e \<noteq> v) (entries (Node l n r)) = entries (Node l' n r)"
        using False l' by (simp add: filter_entries_absent)
      with l' False True show ?thesis by (simp add: EraseRecursive_Node del: EraseRecursive.simps)
    next
      case nlt: False
      then obtain r' where r': "EraseRecursive v r = Some r'"
          "entries r' = filter (\<lambda>e. fst e \<noteq> v) (entries r)"
        using "2.IH"(3) False \<open>bst r\<close> by blast
      have "v \<notin> set (inorder l)" using nlt False l_below by auto
      then have "filter (\<lambda>e. fst e \<noteq> v) (entries (Node l n r)) = entries (Node l n r')"
        using False r' by (simp add: filter_entries_absent)
      with r' False nlt show ?thesis by (simp add: EraseRecursive_Node del: EraseRecursive.simps)
    qed
  qed
next
  case (3 l n r)
  show ?case
  proof (cases "l = Null \<or> r = Null")
    case True
    then show ?thesis by (auto simp: EraseIfFound_one_child)
  next
    case False
    then obtain cl c cr where c: "FindMin r = Node cl c cr" by (cases "FindMin r") auto
    define c' where "c' = c\<lparr>val := val n, cnt := cnt n\<rparr>"
    define r' where "r' = StoreMin c' r"
    have r_above: "\<forall>x \<in> set (inorder r). val n < x" and "bst r"
      using "3.prems" by simp_all
    have er: "entries r = (val c, cnt c) # tl (entries r)"
      using entries_FindMin [OF c] False by (metis entries_Nil list.collapse)
    have er': "entries r' = (val n, cnt n) # tl (entries r)"
      using False by (simp add: r'_def c'_def entries_StoreMin)
    have tl_above: "\<forall>e \<in> set (tl (entries r)). val n < fst e"
      using r_above False by (auto simp: set_inorder_entries dest: list.set_sel(2) [rotated])
    have "sorted_wrt (\<lambda>a b. fst a < fst b) (tl (entries r))"
      using \<open>bst r\<close> er by (metis bst_entries sorted_wrt.simps(2))
    then have "bst r'" using er' tl_above by (simp add: bst_entries)
    moreover have "(n\<lparr>val := val c, cnt := cnt c\<rparr>, c') = SwapNodesValue n c"
      by (simp add: SwapNodesValue_def c'_def)
    ultimately obtain r'' where r'': "EraseRecursive (val c') r' = Some r''"
        "entries r'' = filter (\<lambda>e. fst e \<noteq> val c') (entries r')"
      using "3.IH" [OF False c refl _ r'_def] by blast
    have "filter (\<lambda>e. fst e \<noteq> val n) (tl (entries r)) = tl (entries r)"
      using tl_above by (auto simp: filter_id_conv)
    then have "entries r'' = tl (entries r)" using r''(2) er' by (simp add: c'_def)
    moreover have "EraseIfFound l n r = Some (Node l (n\<lparr>val := val c, cnt := cnt c\<rparr>) r'')"
      using False c r''(1) by (simp add: EraseIfFound_two_children r'_def c'_def)
    ultimately show ?thesis using er by simp
  qed
qed


lemma EraseRecursive_defined:
  "bst t \<Longrightarrow> \<exists>t'. EraseRecursive v t = Some t'"
  using entries_Erase(1) by blast

lemma inorder_EraseRecursive:
  assumes "bst t" "EraseRecursive v t = Some t'"
  shows "inorder t' = filter (\<lambda>x. x \<noteq> v) (inorder t)"
proof -
  have "entries t' = filter (\<lambda>e. fst e \<noteq> v) (entries t)"
    using entries_Erase(1) [OF assms(1), of v] assms(2) by simp
  then show ?thesis by (simp add: inorder_entries filter_map comp_def)
qed

lemma bst_EraseRecursive:
  assumes "bst t" "EraseRecursive v t = Some t'"
  shows "bst t'"
  using assms inorder_EraseRecursive [OF assms] by (simp add: bst_sorted sorted_wrt_filter)

lemma EraseRecursive_absent:
  "v \<notin> set (inorder t) \<Longrightarrow> EraseRecursive v t = Some t"
  by (induction t) auto

lemma Erase_Some:
  "Erase v t = Some t' \<longleftrightarrow>
     EraseRecursive v (root t) = Some (root t') \<and> root t' \<noteq> Null \<and> tsize t' = tsize t"
  by (cases t; cases t') (auto simp: Erase_def split: bind_splits)

lemma bst_Erase: "Erase v t = Some t' \<Longrightarrow> bst (root t) \<Longrightarrow> bst (root t')"
  unfolding Erase_Some using bst_EraseRecursive by blast

lemma bst_apply_operation:
  "apply_operation ms k x t = Some t' \<Longrightarrow> bst (root t) \<Longrightarrow> bst (root t')"
  by (cases x) (auto dest: bst_Insert bst_Erase)

lemma bst_run: "run ms k xs t = Some t' \<Longrightarrow> bst (root t) \<Longrightarrow> bst (root t')"
proof (induction xs arbitrary: t)
  case Nil
  then show ?case by simp
next
  case (Cons x xs)
  then obtain t1 where "apply_operation ms k x t = Some t1" "run ms k xs t1 = Some t'"
    by (auto split: bind_splits)
  with Cons show ?case using bst_apply_operation by blast
qed

lemma bst_reachable: "run ms k xs empty_tree = Some t \<Longrightarrow> bst (root t)"
  using bst_run [of ms k xs empty_tree t] by (simp add: empty_tree_def)

section \<open>Next and Prev\<close>

text \<open>
  The candidate that the loop of \<open>Next\<close> carries is either null or a node above \<open>v\<close> and
  above every value of the subtree still to be searched.
\<close>

lemma Next_loop_least:
  assumes "bst t"
    and "next = Null \<or> (\<exists>nl nn nr. next = Node nl nn nr \<and> (\<forall>x \<in> set (inorder t). x < val nn))"
  shows "deref (Next_loop v next t) =
     (if \<exists>y \<in> set (inorder t). v < y then Some (Min {y \<in> set (inorder t). v < y})
      else deref next)"
  using assms
proof (induction t arbitrary: "next")
  case Null
  then show ?case by simp
next
  case (Node l n r)
  have l_below: "\<forall>x \<in> set (inorder l). x < val n" and r_above: "\<forall>x \<in> set (inorder r). val n < x"
    and "bst l" "bst r"
    using Node.prems(1) by simp_all
  let ?S = "{y \<in> set (inorder (Node l n r)). v < y}"
  show ?case
  proof (cases "v < val n")
    case True
    have cand: "(case next of Null \<Rightarrow> Node l n r
                 | Node nl nn nr \<Rightarrow> if val n < val nn then Node l n r else next) = Node l n r"
      using Node.prems(2) by (auto split: ptr.splits)
    have "deref (Next_loop v (Node l n r) l) =
       (if \<exists>y \<in> set (inorder l). v < y then Some (Min {y \<in> set (inorder l). v < y})
        else deref (Node l n r))"
      using Node.IH(1) [OF \<open>bst l\<close>, of "Node l n r"] l_below by blast
    moreover have "Min ?S = (if \<exists>y \<in> set (inorder l). v < y
        then Min {y \<in> set (inorder l). v < y} else val n)"
    proof (cases "\<exists>y \<in> set (inorder l). v < y")
      case ex: True
      let ?L = "{y \<in> set (inorder l). v < y}"
      have fin: "finite ?L" by simp
      have ne: "?L \<noteq> {}" using ex by auto
      have m: "Min ?L \<in> ?L" "\<forall>y \<in> ?L. Min ?L \<le> y"
        using Min_in [OF fin ne] Min_le [OF fin] by blast+
      then have "Min ?L < val n" using l_below by blast
      have "Min ?S = Min ?L"
      proof (rule Min_eqI)
        show "finite ?S" by simp
        show "Min ?L \<in> ?S" using m(1) by auto
        fix y assume "y \<in> ?S"
        then consider "y \<in> ?L" | "y = val n" | "y \<in> set (inorder r)" by auto
        then show "Min ?L \<le> y"
          using m(2) \<open>Min ?L < val n\<close> r_above by cases force+
      qed
      with ex show ?thesis by simp
    next
      case nex: False
      have "Min ?S = val n"
      proof (rule Min_eqI)
        show "finite ?S" by simp
        show "val n \<in> ?S" using True by simp
        fix y assume "y \<in> ?S"
        then consider "y \<in> set (inorder l) \<and> v < y" | "y = val n" | "y \<in> set (inorder r)" by auto
        then show "val n \<le> y" using nex r_above by cases force+
      qed
      with nex show ?thesis by simp
    qed
    ultimately show ?thesis using True cand by auto
  next
    case False
    have "next = Null \<or> (\<exists>nl nn nr. next = Node nl nn nr \<and> (\<forall>x \<in> set (inorder r). x < val nn))"
      using Node.prems(2) by auto
    then have "deref (Next_loop v next r) =
       (if \<exists>y \<in> set (inorder r). v < y then Some (Min {y \<in> set (inorder r). v < y})
        else deref next)"
      using Node.IH(2) [OF \<open>bst r\<close>] by blast
    moreover have "?S = {y \<in> set (inorder r). v < y}"
      using False l_below by force
    ultimately show ?thesis using False by auto
  qed
qed

lemma Prev_loop_greatest:
  assumes "bst t"
    and "prev = Null \<or> (\<exists>pl pn pr. prev = Node pl pn pr \<and> (\<forall>x \<in> set (inorder t). val pn < x))"
  shows "deref (Prev_loop v prev t) =
     (if \<exists>y \<in> set (inorder t). y < v then Some (Max {y \<in> set (inorder t). y < v})
      else deref prev)"
  using assms
proof (induction t arbitrary: prev)
  case Null
  then show ?case by simp
next
  case (Node l n r)
  have l_below: "\<forall>x \<in> set (inorder l). x < val n" and r_above: "\<forall>x \<in> set (inorder r). val n < x"
    and "bst l" "bst r"
    using Node.prems(1) by simp_all
  let ?S = "{y \<in> set (inorder (Node l n r)). y < v}"
  show ?case
  proof (cases "val n < v")
    case True
    have cand: "(case prev of Null \<Rightarrow> Node l n r
                 | Node pl pn pr \<Rightarrow> if val n > val pn then Node l n r else prev) = Node l n r"
      using Node.prems(2) by (auto split: ptr.splits)
    have "deref (Prev_loop v (Node l n r) r) =
       (if \<exists>y \<in> set (inorder r). y < v then Some (Max {y \<in> set (inorder r). y < v})
        else deref (Node l n r))"
      using Node.IH(2) [OF \<open>bst r\<close>, of "Node l n r"] r_above by blast
    moreover have "Max ?S = (if \<exists>y \<in> set (inorder r). y < v
        then Max {y \<in> set (inorder r). y < v} else val n)"
    proof (cases "\<exists>y \<in> set (inorder r). y < v")
      case ex: True
      let ?R = "{y \<in> set (inorder r). y < v}"
      have fin: "finite ?R" by simp
      have ne: "?R \<noteq> {}" using ex by auto
      have m: "Max ?R \<in> ?R" "\<forall>y \<in> ?R. y \<le> Max ?R"
        using Max_in [OF fin ne] Max_ge [OF fin] by blast+
      then have "val n < Max ?R" using r_above by blast
      have "Max ?S = Max ?R"
      proof (rule Max_eqI)
        show "finite ?S" by simp
        show "Max ?R \<in> ?S" using m(1) by auto
        fix y assume "y \<in> ?S"
        then consider "y \<in> ?R" | "y = val n" | "y \<in> set (inorder l)" by auto
        then show "y \<le> Max ?R"
          using m(2) \<open>val n < Max ?R\<close> l_below by cases force+
      qed
      with ex show ?thesis by simp
    next
      case nex: False
      have "Max ?S = val n"
      proof (rule Max_eqI)
        show "finite ?S" by simp
        show "val n \<in> ?S" using True by simp
        fix y assume "y \<in> ?S"
        then consider "y \<in> set (inorder r) \<and> y < v" | "y = val n" | "y \<in> set (inorder l)" by auto
        then show "y \<le> val n" using nex l_below by cases force+
      qed
      with nex show ?thesis by simp
    qed
    ultimately show ?thesis using True cand by auto
  next
    case False
    have "prev = Null \<or> (\<exists>pl pn pr. prev = Node pl pn pr \<and> (\<forall>x \<in> set (inorder l). val pn < x))"
      using Node.prems(2) by auto
    then have "deref (Prev_loop v prev l) =
       (if \<exists>y \<in> set (inorder l). y < v then Some (Max {y \<in> set (inorder l). y < v})
        else deref prev)"
      using Node.IH(1) [OF \<open>bst l\<close>] by blast
    moreover have "?S = {y \<in> set (inorder l). y < v}"
      using False r_above by force
    ultimately show ?thesis using False by auto
  qed
qed

lemma deref_None [simp]: "deref p = None \<longleftrightarrow> p = Null"
  by (cases p) simp_all

lemma Next_bst:
  "bst (root t) \<Longrightarrow> deref (Next v t) =
     (if \<exists>y \<in> set (inorder (root t)). v < y then Some (Min {y \<in> set (inorder (root t)). v < y})
      else None)"
  using Next_loop_least [of "root t" Null v] by (simp add: Next_def)

lemma Prev_bst:
  "bst (root t) \<Longrightarrow> deref (Prev v t) =
     (if \<exists>y \<in> set (inorder (root t)). y < v then Some (Max {y \<in> set (inorder (root t)). y < v})
      else None)"
  using Prev_loop_greatest [of "root t" Null v] by (simp add: Prev_def)

section \<open>Occurrence counts\<close>

text \<open>
  A property of counts that holds for 1, and for \<open>c + 1\<close> whenever duplicates are counted,
  holds for every count after an insertion.
\<close>

lemma cnt_InsertRecursive:
  assumes "InsertRecursive ms k v t sz = Some (t', sz')"
    and "P 1" and "\<And>c. ms \<Longrightarrow> P c \<Longrightarrow> P (c + 1)"
    and "\<forall>e \<in> set (entries t). P (snd e)"
  shows "\<forall>e \<in> set (entries t'). P (snd e)"
  using assms(1,4)
proof (induction t arbitrary: t' sz')
  case Null
  then show ?case using assms(2) by (auto simp: CreateNode_def)
next
  case (Node l n r)
  note step = Node.prems(1) [unfolded InsertRecursive_Node]
  show ?case
  proof (cases "val n = v")
    case True
    with step have b: "Balance k (Node l (InsertIfFound ms n) r) = Some t'" by simp
    have "P (cnt (InsertIfFound ms n))"
      using Node.prems(2) assms(3) [of "cnt n"] by (auto simp: InsertIfFound_def)
    then show ?thesis using entries_Balance [OF b] Node.prems(2) by auto
  next
    case False
    show ?thesis
    proof (cases "val n > v")
      case True
      with False step obtain l' where
        l': "InsertRecursive ms k v l sz = Some (l', sz')" and b: "Balance k (Node l' n r) = Some t'"
        by auto
      have "\<forall>e \<in> set (entries l'). P (snd e)" using Node.IH(1) [OF l'] Node.prems(2) by simp
      then show ?thesis using entries_Balance [OF b] Node.prems(2) by auto
    next
      case nlt: False
      with False step obtain r' where
        r': "InsertRecursive ms k v r sz = Some (r', sz')" and b: "Balance k (Node l n r') = Some t'"
        by auto
      have "\<forall>e \<in> set (entries r'). P (snd e)" using Node.IH(2) [OF r'] Node.prems(2) by simp
      then show ?thesis using entries_Balance [OF b] Node.prems(2) by auto
    qed
  qed
qed

lemma cnt_EraseRecursive:
  assumes "bst t" "EraseRecursive v t = Some t'" "\<forall>e \<in> set (entries t). P (snd e)"
  shows "\<forall>e \<in> set (entries t'). P (snd e)"
proof -
  have "entries t' = filter (\<lambda>e. fst e \<noteq> v) (entries t)"
    using entries_Erase(1) [OF assms(1), of v] assms(2) by simp
  then show ?thesis using assms(3) by simp
qed

lemma cnt_run:
  assumes "P 1" and "\<And>c. ms \<Longrightarrow> P c \<Longrightarrow> P (c + 1)"
  shows "run ms k xs t = Some t' \<Longrightarrow> bst (root t) \<Longrightarrow> \<forall>e \<in> set (entries (root t)). P (snd e) \<Longrightarrow>
     \<forall>e \<in> set (entries (root t')). P (snd e)"
proof (induction xs arbitrary: t)
  case Nil
  then show ?case by simp
next
  case (Cons x xs)
  then obtain t1 where t1: "apply_operation ms k x t = Some t1" "run ms k xs t1 = Some t'"
    by (auto split: bind_splits)
  have "bst (root t1)" using bst_apply_operation [OF t1(1) Cons.prems(2)] .
  moreover have "\<forall>e \<in> set (entries (root t1)). P (snd e)"
  proof (cases x)
    case (InsertOp v)
    with t1(1) have "InsertRecursive ms k v (root t) (tsize t) = Some (root t1, tsize t1)"
      by (simp add: Insert_Some)
    from cnt_InsertRecursive [where P = P, OF this assms(1)] assms(2) Cons.prems(3)
    show ?thesis by blast
  next
    case (EraseOp v)
    with t1(1) have "EraseRecursive v (root t) = Some (root t1)" by (simp add: Erase_Some)
    from cnt_EraseRecursive [where P = P, OF Cons.prems(2) this] Cons.prems(3)
    show ?thesis by blast
  qed
  ultimately show ?case using Cons.IH [OF t1(2)] by blast
qed

lemma Erase_absent:
  "v \<notin> set (inorder (root t)) \<Longrightarrow> root t \<noteq> Null \<Longrightarrow> Erase v t = Some t"
  by (simp add: Erase_def EraseRecursive_absent)

lemma Size_Erase: "Erase v t = Some t' \<Longrightarrow> Size t' = Size t"
  by (simp add: Erase_Some Size_def)

section \<open>Inserting a value that is present\<close>






section \<open>Insert keeps the AVL invariant\<close>

text \<open>
  In the two AVL classes \<open>InsertRecursive\<close> ends in \<open>Balance\<close> at every node of its path.
  From a tree whose stored heights (and sizes) are right and whose subtrees differ in
  height by at most one, it returns such a tree again.
\<close>

lemma avl_Null [simp]: "avl k Null"
  by (simp add: avl_def)




lemma RotateRight_Some:
  "RotateRight k t = Some t' \<longleftrightarrow>
     (\<exists>sl s T2 n r. t = Node (Node sl s T2) n r \<and>
        t' = RenewNodesHeight k (Node sl s (RenewNodesHeight k (Node T2 n r))))"
  by (induction k t rule: RotateRight.induct) (auto simp: Let_def)

lemma RotateLeft_Some:
  "RotateLeft k t = Some t' \<longleftrightarrow>
     (\<exists>l n T2 s sr. t = Node l n (Node T2 s sr) \<and>
        t' = RenewNodesHeight k (Node (RenewNodesHeight k (Node l n T2)) s sr))"
  by (induction k t rule: RotateLeft.induct) (auto simp: Let_def)

lemma tree_height_Renew [simp]: "tree_height (RenewNodesHeight k t) = tree_height t"
  by (cases t) simp_all

lemma nodes_Renew [simp]: "nodes (RenewNodesHeight k t) = nodes t"
  by (cases t) simp_all




declare RenewNodesHeight.simps [simp del]










section \<open>Facts about whole calls\<close>

lemma cnt_positive_reachable:
  "run ms k xs empty_tree = Some t \<Longrightarrow> \<forall>e \<in> set (entries (root t)). 1 \<le> snd e"
  using cnt_run [where P = "\<lambda>c. 1 \<le> c", of ms k xs empty_tree t] by (simp add: empty_tree_def)

lemma Erase_null_root: "EraseRecursive v (root t) = Some Null \<Longrightarrow> Erase v t = None"
  by (simp add: Erase_def)


lemma set_inorder_inserts:
  "run ms k (map InsertOp vs) t = Some t' \<Longrightarrow>
     set (inorder (root t')) = set vs \<union> set (inorder (root t))"
proof (induction vs arbitrary: t)
  case Nil
  then show ?case by simp
next
  case (Cons v vs)
  then obtain t1 where t1: "Insert ms k v t = Some t1" "run ms k (map InsertOp vs) t1 = Some t'"
    by (auto split: bind_splits)
  show ?case using Cons.IH [OF t1(2)] set_inorder_Insert [OF t1(1)] by auto
qed





lemma run_append: "run ms k (xs @ ys) t = run ms k xs t \<bind> run ms k ys"
  by (induction xs arbitrary: t) (simp_all split: bind_splits)

lemma set_inorder_Erase:
  assumes "bst (root t)" "Erase v t = Some t'"
  shows "set (inorder (root t')) = set (inorder (root t)) - {v}"
proof -
  have "EraseRecursive v (root t) = Some (root t')" using assms(2) by (simp add: Erase_Some)
  from inorder_EraseRecursive [OF assms(1) this] show ?thesis by auto
qed

lemma set_inorder_erases:
  "bst (root t) \<Longrightarrow> run ms k (map EraseOp ws) t = Some t' \<Longrightarrow>
     set (inorder (root t')) = set (inorder (root t)) - set ws"
proof (induction ws arbitrary: t)
  case Nil
  then show ?case by simp
next
  case (Cons w ws)
  then obtain t1 where t1: "Erase w t = Some t1" "run ms k (map EraseOp ws) t1 = Some t'"
    by (auto split: bind_splits)
  have "bst (root t1)" using bst_Erase [OF t1(1) Cons.prems(1)] .
  from Cons.IH [OF this t1(2)] set_inorder_Erase [OF Cons.prems(1) t1(1)] show ?case by auto
qed

lemma erases_keep_root:
  "ws \<noteq> [] \<Longrightarrow> run ms k (map EraseOp ws) t = Some t' \<Longrightarrow> root t' \<noteq> Null"
proof (induction ws arbitrary: t)
  case Nil
  then show ?case by simp
next
  case (Cons w ws)
  then obtain t1 where t1: "Erase w t = Some t1" "run ms k (map EraseOp ws) t1 = Some t'"
    by (auto split: bind_splits)
  show ?case
  proof (cases "ws = []")
    case True
    with t1 show ?thesis by (simp add: Erase_Some)
  next
    case False
    then show ?thesis using Cons.IH t1(2) by blast
  qed
qed

text \<open>
  Inserting any values and then erasing at least those, one call each, always ends in
  the dereference of a null root.
\<close>

lemma round_trip_undefined:
  assumes "ws \<noteq> []" "set vs \<subseteq> set ws"
  shows "run ms k (map InsertOp vs @ map EraseOp ws) empty_tree = None"
proof (rule ccontr)
  assume "run ms k (map InsertOp vs @ map EraseOp ws) empty_tree \<noteq> None"
  then obtain t t' where t: "run ms k (map InsertOp vs) empty_tree = Some t"
    and t': "run ms k (map EraseOp ws) t = Some t'"
    by (auto simp: run_append split: bind_splits)
  have b: "bst (root t)" using bst_reachable [OF t] .
  have "set (inorder (root t)) = set vs"
    using set_inorder_inserts [OF t] by (simp add: empty_tree_def)
  then have "set (inorder (root t')) = {}"
    using set_inorder_erases [OF b t'] assms(2) by auto
  then have "root t' = Null" by simp
  then show False using erases_keep_root [OF assms(1) t'] by simp
qed

section \<open>The claims\<close>

text \<open>
  C1: after every \<open>Insert\<close> and \<open>Erase\<close> the subtrees of every node differ in height by
  at most one and every stored height (and size) is the one recomputed from the
  children, the hook being applied at every ancestor on the way up from an \<open>Erase\<close>.
  The code does not do this. \<open>EraseRecursive\<close> and \<open>EraseIfFound\<close> return the node without
  calling \<open>Balance\<close>, which \<open>InsertRecursive\<close> calls on every node of its path (insertions
  alone keep the invariant, \<open>avl_inserts\<close>). After inserting 2, 1, 3, 4 and erasing 1, the
  root has an empty left subtree and a right subtree of height 2, in both AVL classes.
  After inserting 2, 1 and erasing 1, the only node left still stores height 2 and, in
  the order-statistics class, size 2.
\<close>

theorem Erase_breaks_avl_invariant:
  "map_option (\<lambda>t. (inorder (root t), balanced (root t)))
     (run False TAvlTree [InsertOp 2, InsertOp 1, InsertOp 3, InsertOp 4, EraseOp (1::int)] empty_tree)
     = Some ([2, 3, 4], False)
   \<and> map_option (\<lambda>t. (inorder (root t), balanced (root t)))
     (run False TAvlTreeWithSize [InsertOp 2, InsertOp 1, InsertOp 3, InsertOp 4, EraseOp (1::int)]
        empty_tree)
     = Some ([2, 3, 4], False)
   \<and> run False TAvlTreeWithSize [InsertOp 2, InsertOp 1, EraseOp (1::int)] empty_tree
     = Some \<lparr>root = Node Null \<lparr>val = 2, cnt = 1, height = 2, nsize = 2\<rparr> Null, tsize = 2\<rparr>
   \<and> \<not> heights_correct (Node Null \<lparr>val = 2::int, cnt = 1, height = 2, nsize = 2\<rparr> Null)
   \<and> \<not> sizes_correct (Node Null \<lparr>val = 2::int, cnt = 1, height = 2, nsize = 2\<rparr> Null)"
  by code_simp

text \<open>
  C2: inserting \<open>n\<close> distinct values and erasing them all leaves \<open>Empty()\<close> true and
  \<open>Size() = 0\<close>. The code does not do this. \<open>Erase\<close> never writes \<open>size_\<close>, so \<open>Size()\<close>
  still counts every node ever created (\<open>Size_Erase\<close>), and the \<open>Erase\<close> that removes the
  last node is left with a null root and dereferences it (\<open>Erase_null_root\<close>), so every
  such round trip of at least one value ends there (\<open>round_trip_undefined\<close>). Inserting 1
  and erasing 1 does, in every class and mode; inserting 1 and 2 and erasing 1 leaves one
  value, \<open>Size() = 2\<close> and \<open>Empty()\<close> false.
\<close>

theorem Erase_round_trip_fails:
  "run ms k [InsertOp 1, EraseOp (1::int)] empty_tree = None
   \<and> map_option (\<lambda>t. (inorder (root t), Size t, Empty t))
       (run False TAvlTree [InsertOp 1, InsertOp 2, EraseOp (1::int)] empty_tree)
     = Some ([2], 2, False)"
proof -
  have "run ms k [InsertOp 1, EraseOp (1::int)] empty_tree = None"
    by (simp add: Insert_def Erase_def empty_tree_def CreateNode_def EraseIfFound_one_child)
  moreover have "map_option (\<lambda>t. (inorder (root t), Size t, Empty t))
       (run False TAvlTree [InsertOp 1, InsertOp 2, EraseOp (1::int)] empty_tree)
     = Some ([2], 2, False)"
    by code_simp
  ultimately show ?thesis by (rule conjI)
qed

text \<open>
  C3: \<open>Erase\<close> of an absent value returns normally and leaves the tree unchanged, for
  every tree, the empty one included. On a tree that is not empty the code does so
  (\<open>Erase_absent\<close>). On the empty tree it does not: \<open>EraseRecursive\<close> returns null, and
  \<open>Erase\<close> stores it in \<open>root_\<close> and then writes \<open>root_->parent_\<close>.
\<close>

theorem Erase_on_empty_tree:
  "Erase (v::int) empty_tree = None"
  by (simp add: Erase_def empty_tree_def)

text \<open>
  C4: in multiset mode every count is at least 1, and \<open>Erase\<close> removes a node only when
  its count has reached zero. The first half holds in every reachable state
  (\<open>cnt_positive_reachable\<close>). The second does not hold of the code: \<open>EraseIfFound\<close> never
  reads \<open>cnt_\<close>. After inserting 7, 7, 8 the node of 7 has count 2; one \<open>Erase(7)\<close> removes
  the node, and \<open>Exsist(7)\<close> is false afterwards, in each class.
\<close>

theorem Erase_ignores_count:
  "map_option (\<lambda>t. entries (root t))
     (run True k [InsertOp 7, InsertOp 7, InsertOp (8::int)] empty_tree)
     = Some [(7, 2), (8, 1)]
   \<and> map_option (\<lambda>t. (entries (root t), Exsist 7 t))
     (run True k [InsertOp 7, InsertOp 7, InsertOp (8::int), EraseOp 7] empty_tree)
     = Some ([(8, 1)], False)"
  by (cases k; hypsubst; code_simp)

text \<open>
  C5: in every state reached from a new tree by \<open>Insert\<close> and \<open>Erase\<close> calls, \<open>Next(x)\<close> is
  an iterator to the least stored value above \<open>x\<close>, and invalid when there is none;
  \<open>Prev(x)\<close> is an iterator to the greatest stored value below \<open>x\<close>, and invalid when
  there is none. On the new tree \<open>Next(0)\<close> is invalid; after inserting only 5, \<open>Next(0)\<close>
  points to 5 and \<open>Prev(5)\<close> is invalid.
\<close>

theorem Next_Prev_strict_neighbours:
  "(run ms k xs empty_tree = Some t \<longrightarrow>
      deref (Next x t) =
        (if \<exists>y \<in> set (inorder (root t)). x < y
         then Some (Min {y \<in> set (inorder (root t)). x < y}) else None) \<and>
      deref (Prev x t) =
        (if \<exists>y \<in> set (inorder (root t)). y < x
         then Some (Max {y \<in> set (inorder (root t)). y < x}) else None) \<and>
      IsValid (Next x t) = (\<exists>y \<in> set (inorder (root t)). x < y) \<and>
      IsValid (Prev x t) = (\<exists>y \<in> set (inorder (root t)). y < x))
   \<and> \<not> IsValid (Next (0::int) empty_tree)
   \<and> Insert ms' k' (5::int) empty_tree = Some \<lparr>root = CreateNode 5, tsize = 1\<rparr>
   \<and> deref (Next (0::int) \<lparr>root = CreateNode 5, tsize = 1\<rparr>) = Some 5
   \<and> \<not> IsValid (Prev (5::int) \<lparr>root = CreateNode 5, tsize = 1\<rparr>)"
proof -
  have general: "deref (Next x t) =
        (if \<exists>y \<in> set (inorder (root t)). x < y
         then Some (Min {y \<in> set (inorder (root t)). x < y}) else None) \<and>
      deref (Prev x t) =
        (if \<exists>y \<in> set (inorder (root t)). y < x
         then Some (Max {y \<in> set (inorder (root t)). y < x}) else None) \<and>
      IsValid (Next x t) = (\<exists>y \<in> set (inorder (root t)). x < y) \<and>
      IsValid (Prev x t) = (\<exists>y \<in> set (inorder (root t)). y < x)"
    if reach: "run ms k xs empty_tree = Some t"
  proof -
    have b: "bst (root t)" using bst_reachable [OF reach] .
    have n: "deref (Next x t) =
        (if \<exists>y \<in> set (inorder (root t)). x < y
         then Some (Min {y \<in> set (inorder (root t)). x < y}) else None)"
      using Next_bst [OF b] .
    have p: "deref (Prev x t) =
        (if \<exists>y \<in> set (inorder (root t)). y < x
         then Some (Max {y \<in> set (inorder (root t)). y < x}) else None)"
      using Prev_bst [OF b] .
    have "IsValid (Next x t) = (deref (Next x t) \<noteq> None)"
         "IsValid (Prev x t) = (deref (Prev x t) \<noteq> None)"
      by (simp_all add: IsValid_def)
    then have "IsValid (Next x t) = (\<exists>y \<in> set (inorder (root t)). x < y)"
         "IsValid (Prev x t) = (\<exists>y \<in> set (inorder (root t)). y < x)"
      unfolding n p by simp_all
    with n p show ?thesis by blast
  qed
  have "\<not> IsValid (Next (0::int) empty_tree)"
    by (simp add: IsValid_def Next_def empty_tree_def)
  moreover have "Insert ms' k' (5::int) empty_tree = Some \<lparr>root = CreateNode 5, tsize = 1\<rparr>"
    by (simp add: Insert_def empty_tree_def CreateNode_def)
  moreover have "deref (Next (0::int) \<lparr>root = CreateNode 5, tsize = 1\<rparr>) = Some 5"
    by (simp add: Next_def CreateNode_def)
  moreover have "\<not> IsValid (Prev (5::int) \<lparr>root = CreateNode 5, tsize = 1\<rparr>)"
    by (simp add: IsValid_def Prev_def CreateNode_def)
  ultimately show ?thesis using general by blast
qed

theorem Next_Prev_strict_neighbours_witness:
  "run False TAvlTree [InsertOp 1, InsertOp 2, InsertOp 3, EraseOp 2, InsertOp 0, InsertOp (9::int)]
     empty_tree
     = Some \<lparr>root = Node (CreateNode 0) \<lparr>val = 1, cnt = 1, height = 3, nsize = 1\<rparr>
                      (Node Null \<lparr>val = 3, cnt = 1, height = 2, nsize = 1\<rparr> (CreateNode 9)),
             tsize = 5\<rparr>
   \<and> deref (Next 2 \<lparr>root = Node (CreateNode 0) \<lparr>val = 1, cnt = 1, height = 3, nsize = 1\<rparr>
                      (Node Null \<lparr>val = 3, cnt = 1, height = 2, nsize = 1\<rparr> (CreateNode (9::int))),
             tsize = 5\<rparr>) = Some 3
   \<and> deref (Prev 2 \<lparr>root = Node (CreateNode 0) \<lparr>val = 1, cnt = 1, height = 3, nsize = 1\<rparr>
                      (Node Null \<lparr>val = 3, cnt = 1, height = 2, nsize = 1\<rparr> (CreateNode (9::int))),
             tsize = 5\<rparr>) = Some 1"
proof -
  let ?T = "\<lparr>root = Node (CreateNode 0) \<lparr>val = 1, cnt = 1, height = 3, nsize = 1\<rparr>
                      (Node Null \<lparr>val = 3, cnt = 1, height = 2, nsize = 1\<rparr> (CreateNode (9::int))),
             tsize = 5\<rparr>"
  have h: "run False TAvlTree
      [InsertOp 1, InsertOp 2, InsertOp 3, EraseOp 2, InsertOp 0, InsertOp (9::int)] empty_tree
     = Some ?T"
    by code_simp
  have above: "{y \<in> set (inorder (root ?T)). 2 < y} = {3, 9}"
    by (auto simp: CreateNode_def)
  have below: "{y \<in> set (inorder (root ?T)). y < 2} = {0, 1}"
    by (auto simp: CreateNode_def)
  note g = Next_Prev_strict_neighbours [of False TAvlTree _ ?T 2, THEN conjunct1, THEN mp, OF h]
  have "deref (Next 2 ?T) = Some 3" "deref (Prev 2 ?T) = Some 1"
    using g unfolding above below by (simp_all add: CreateNode_def)
  with h show ?thesis by blast
qed

text \<open>
  C6: a single rotation, \<open>RotateRight\<close> or \<open>RotateLeft\<close>, applied to a subtree leaves the
  in-order sequence of its values as it was. The rotation is applied when it returns a
  subtree, which it does whenever the child it pivots on is not null. The same holds for
  the occurrence counts that travel with the values (\<open>entries_RotateRight\<close>,
  \<open>entries_RotateLeft\<close>).
\<close>

theorem rotation_keeps_inorder:
  assumes "RotateRight k t = Some t' \<or> RotateLeft k t = Some t'"
  shows "inorder t' = inorder t"
  using assms entries_RotateRight [of k t t'] entries_RotateLeft [of k t t']
  by (auto simp: inorder_entries)

theorem rotation_keeps_inorder_witness:
  "RotateRight TAvlTreeWithSize
     (Node (Node (CreateNode 1) \<lparr>val = 2, cnt = 1, height = 2, nsize = 2\<rparr> Null)
           \<lparr>val = 3, cnt = 1, height = 3, nsize = 3\<rparr> Null)
   = Some (Node (CreateNode 1) \<lparr>val = 2, cnt = 1, height = 2, nsize = 3\<rparr> (CreateNode (3::int)))
   \<and> inorder (Node (CreateNode 1) \<lparr>val = 2, cnt = 1, height = 2, nsize = 3\<rparr> (CreateNode (3::int)))
     = inorder (Node (Node (CreateNode 1) \<lparr>val = 2, cnt = 1, height = 2, nsize = 2\<rparr> Null)
           \<lparr>val = 3, cnt = 1, height = 3, nsize = 3\<rparr> Null)"
proof -
  have h: "RotateRight TAvlTreeWithSize
     (Node (Node (CreateNode 1) \<lparr>val = 2, cnt = 1, height = 2, nsize = 2\<rparr> Null)
           \<lparr>val = 3, cnt = 1, height = 3, nsize = 3\<rparr> Null)
   = Some (Node (CreateNode 1) \<lparr>val = 2, cnt = 1, height = 2, nsize = 3\<rparr> (CreateNode (3::int)))"
    by code_simp
  show ?thesis using h rotation_keeps_inorder [OF disjI1, OF h] by (rule conjI)
qed

text \<open>
  C7: after every sequence of \<open>Insert\<close> and \<open>Erase\<close> calls on a new tree, in either mode
  and in each of the three classes, the tree is in search-tree order: at every node the
  values of the left subtree are below the node's value and those of the right subtree
  above it. \<open>Insert\<close> always returns (\<open>Insert_defined\<close>); the sequence stops where an
  \<open>Erase\<close> leaves a null root and dereferences it.
\<close>

theorem bst_after_every_operation:
  "run ms k xs empty_tree = Some t \<Longrightarrow> bst (root t)"
  by (rule bst_reachable)

theorem bst_after_every_operation_witness:
  "run False TAvlTree [InsertOp 1, InsertOp 2, InsertOp 3, EraseOp 2, InsertOp (0::int)] empty_tree
     = Some \<lparr>root = Node (CreateNode 0) \<lparr>val = 1, cnt = 1, height = 2, nsize = 1\<rparr> (CreateNode 3),
             tsize = 4\<rparr>
   \<and> bst (root \<lparr>root = Node (CreateNode 0) \<lparr>val = 1, cnt = 1, height = 2, nsize = 1\<rparr>
                          (CreateNode (3::int)),
                 tsize = 4\<rparr>)"
proof -
  have h: "run False TAvlTree [InsertOp 1, InsertOp 2, InsertOp 3, EraseOp 2, InsertOp (0::int)]
      empty_tree
     = Some \<lparr>root = Node (CreateNode 0) \<lparr>val = 1, cnt = 1, height = 2, nsize = 1\<rparr> (CreateNode 3),
             tsize = 4\<rparr>"
    by code_simp
  show ?thesis using h bst_after_every_operation [OF h] by (rule conjI)
qed

text \<open>
  C8: the fourteen insertions of \<open>main1\<close> into a \<open>TAvlTreeWithSize\<close> in set mode all
  return; in the tree they leave, \<open>Prev(8)\<close> is a valid iterator to 6 and the in-order
  sequence is 1, 2, 3, 6, 8, 9, 10, 11, 12, 13, 15, 18.
\<close>

theorem main1_scenario:
  "map_option (\<lambda>t. (IsValid (Prev 8 t), deref (Prev 8 t), inorder (root t)))
     (run False TAvlTreeWithSize main1_ops empty_tree)
   = Some (True, Some 6, [1, 2, 3, 6, 8, 9, 10, 11, 12, 13, 15, 18])"
  by code_simp




text \<open>
  C10: in set mode every node of every state reached from a new tree by \<open>Insert\<close> and
  \<open>Erase\<close> calls has occurrence count 1, in each of the three classes.
\<close>

theorem set_mode_counts_are_one:
  "run False k xs empty_tree = Some t \<Longrightarrow> \<forall>e \<in> set (entries (root t)). snd e = 1"
  using cnt_run [where P = "\<lambda>c. c = 1", of False k xs empty_tree t] by (simp add: empty_tree_def)

theorem set_mode_counts_are_one_witness:
  "run False TAvlTreeWithSize
     [InsertOp 2, InsertOp 1, InsertOp 2, InsertOp 3, InsertOp 3, EraseOp 2, InsertOp (3::int)]
     empty_tree
     = Some \<lparr>root = Node (CreateNode 1) \<lparr>val = 3, cnt = 1, height = 2, nsize = 2\<rparr> Null, tsize = 3\<rparr>
   \<and> list_all (\<lambda>e. snd e = 1)
       (entries (root \<lparr>root = Node (CreateNode 1)
                               \<lparr>val = 3::int, cnt = 1, height = 2, nsize = 2\<rparr> Null,
                      tsize = 3\<rparr>))"
proof -
  have h: "run False TAvlTreeWithSize
     [InsertOp 2, InsertOp 1, InsertOp 2, InsertOp 3, InsertOp 3, EraseOp 2, InsertOp (3::int)]
     empty_tree
     = Some \<lparr>root = Node (CreateNode 1) \<lparr>val = 3, cnt = 1, height = 2, nsize = 2\<rparr> Null, tsize = 3\<rparr>"
    by code_simp
  show ?thesis using h set_mode_counts_are_one [OF h] unfolding list_all_iff by (rule conjI)
qed

end
